theory Spec2Isabelle
  imports Main
begin

section \<open>The JavaScript \<open>Map\<close> used by \<open>main\<close>\<close>

text \<open>
  \<open>index.ts\<close> keeps two \<open>Map\<close> objects: \<open>inventoryMap\<close> (serviceTag to hostId) and
  \<open>inventoryMapFiltered\<close> (hostId to serial). A JavaScript \<open>Map\<close> iterates in insertion
  order and \<open>set\<close> on a key that is already present replaces the value where the entry
  stands. The model is the list of entries in iteration order, with pairwise distinct keys.
\<close>

type_synonym ('k, 'v) Map = "('k \<times> 'v) list"

definition Map_new :: "('k, 'v) Map" where
  "Map_new = []"

fun Map_set :: "'k \<Rightarrow> 'v \<Rightarrow> ('k, 'v) Map \<Rightarrow> ('k, 'v) Map" where
  "Map_set k v [] = [(k, v)]"
| "Map_set k v (e # m) = (if fst e = k then (k, v) # m else e # Map_set k v m)"

definition Map_get :: "('k, 'v) Map \<Rightarrow> 'k \<Rightarrow> 'v option" where
  "Map_get m k = map_of m k"

definition Map_has :: "('k, 'v) Map \<Rightarrow> 'k \<Rightarrow> bool" where
  "Map_has m k = (Map_get m k \<noteq> None)"

definition Map_size :: "('k, 'v) Map \<Rightarrow> nat" where
  "Map_size m = length m"

section \<open>Input Loader: \<open>readFileAndParseToArray\<close>\<close>

text \<open>
  Characters are code units below 256. \<open>String.prototype.trim\<close> removes white space and
  line terminators; in that range these are TAB, LF, VT, FF, CR, SPACE and NBSP.
\<close>

definition isWhiteSpace :: "char \<Rightarrow> bool" where
  "isWhiteSpace c = (c \<in> set [CHR 0x09, CHR 0x0A, CHR 0x0B, CHR 0x0C, CHR 0x0D, CHR 0x20, CHR 0xA0])"

definition trim :: "string \<Rightarrow> string" where
  "trim s = rev (dropWhile isWhiteSpace (rev (dropWhile isWhiteSpace s)))"

text \<open>\<open>data.split('\n')\<close>: the pieces between line feeds; the empty string gives one empty piece.\<close>

fun split_nl :: "string \<Rightarrow> string list" where
  "split_nl [] = [[]]"
| "split_nl (c # cs) =
     (if c = CHR 0x0A then [] # split_nl cs
      else (case split_nl cs of [] \<Rightarrow> [[c]] | l # ls \<Rightarrow> (c # l) # ls))"

text \<open>The argument is what \<open>fs.readFileSync\<close> returns; \<open>None\<close> when it throws.\<close>

definition readFileAndParseToArray :: "string option \<Rightarrow> string list" where
  "readFileAndParseToArray file =
     (case file of
        Some data \<Rightarrow> map trim (split_nl data)
      | None \<Rightarrow> [])"

section \<open>Reconciliation Engine (lines 139 to 150 of \<open>main\<close>)\<close>

text \<open>The local variables of \<open>main\<close> that the reconciliation pass reads and writes.\<close>

record locals =
  serials :: "string list"
  inventoryMap :: "(string, int) Map"
  inventoryMapFiltered :: "(int, string) Map"
  inventoryNotFound :: "string list"

text \<open>The body of \<open>serials.forEach\<close>.\<close>

definition reconcile_serial :: "locals \<Rightarrow> string \<Rightarrow> locals" where
  "reconcile_serial st serial =
     (if Map_has (inventoryMap st) serial
      then st\<lparr>inventoryMapFiltered :=
                Map_set (the (Map_get (inventoryMap st) serial)) serial (inventoryMapFiltered st)\<rparr>
      else st\<lparr>inventoryNotFound := inventoryNotFound st @ [serial]\<rparr>)"

text \<open>The two fresh containers, then the \<open>forEach\<close> over \<open>serials\<close>.\<close>

definition reconciliation :: "locals \<Rightarrow> locals" where
  "reconciliation st =
     foldl reconcile_serial
       (st\<lparr>inventoryMapFiltered := Map_new, inventoryNotFound := []\<rparr>) (serials st)"

text \<open>The matched and unmatched datasets for an input sequence and an inventory map.\<close>

definition matched :: "string list \<Rightarrow> (string, int) Map \<Rightarrow> (int, string) Map" where
  "matched ss im =
     inventoryMapFiltered (reconciliation
       \<lparr>serials = ss, inventoryMap = im, inventoryMapFiltered = Map_new, inventoryNotFound = []\<rparr>)"

definition unmatched :: "string list \<Rightarrow> (string, int) Map \<Rightarrow> string list" where
  "unmatched ss im =
     inventoryNotFound (reconciliation
       \<lparr>serials = ss, inventoryMap = im, inventoryMapFiltered = Map_new, inventoryNotFound = []\<rparr>)"

section \<open>Remote calls\<close>

text \<open>What an \<open>axios\<close> call gives: it throws (\<open>Failed\<close>) or it yields \<open>response.data\<close>.\<close>

datatype 'a reply = Failed | Reply 'a

record Host =
  description :: string
  host_id :: int

text \<open>One entry of \<open>InventoryResponse.hosts\<close>.\<close>

record host_row =
  hostId :: int
  serviceTag :: string

record report_info =
  token :: "string option"

text \<open>
  The body of a report page as it arrives. The interface \<open>InventoryResponse\<close> declares both
  properties, but nothing validates the body, so either may be missing at run time (\<open>None\<close>).
  \<open>hosts\<close> lists the entries of the object in the order \<open>Object.keys\<close> enumerates them; the
  keys of an object are distinct, so \<open>report.hosts[key]\<close> is the row listed with \<open>key\<close>.
\<close>

record InventoryResponse =
  hosts :: "(string \<times> host_row) list option"
  report :: "report_info option"

text \<open>
  The value \<open>getInventoryReport\<close> hands to the loop, as the test
  \<open>report && typeof report === 'object'\<close> sees it: \<open>null\<close>, a value that is not an object,
  or an object.
\<close>

datatype page = Null | Primitive | Object InventoryResponse

text \<open>
  The report endpoint: its answer to a GET for a token, which may depend on the tokens
  requested before (in request order).
\<close>

type_synonym service = "string list \<Rightarrow> string \<Rightarrow> page reply"

definition getHosts :: "Host list reply \<Rightarrow> int list" where
  "getHosts response = (case response of Reply hs \<Rightarrow> map host_id hs | Failed \<Rightarrow> [])"

definition requestInventoryReport :: "(int list \<Rightarrow> string option reply) \<Rightarrow> int list \<Rightarrow> string option" where
  "requestInventoryReport post hostIds = (case post hostIds of Reply tok \<Rightarrow> tok | Failed \<Rightarrow> None)"

definition getInventoryReport :: "service \<Rightarrow> string list \<Rightarrow> string \<Rightarrow> page" where
  "getInventoryReport srv calls tok = (case srv calls tok of Reply data \<Rightarrow> data | Failed \<Rightarrow> Null)"

section \<open>Paginated Report Fetcher (lines 108 to 122 of \<open>main\<close>)\<close>

text \<open>Why a run ends without output: the early \<open>return\<close>, or the outer \<open>catch\<close>.\<close>

datatype halt = NoToken | ProcessingError

text \<open>JavaScript truthiness of a \<open>string | null\<close>: \<open>null\<close> and the empty string are falsy.\<close>

definition truthy :: "string option \<Rightarrow> bool" where
  "truthy tok = (case tok of None \<Rightarrow> False | Some t \<Rightarrow> t \<noteq> [])"

text \<open>The \<open>forEach\<close> over \<open>Object.keys(report.hosts)\<close>.\<close>

definition set_hosts :: "(string \<times> host_row) list \<Rightarrow> (string, int) Map \<Rightarrow> (string, int) Map" where
  "set_hosts hs m = foldl (\<lambda>m (key, host). Map_set (serviceTag host) (hostId host) m) m hs"

text \<open>
  The state of the \<open>while (nextToken)\<close> loop besides \<open>nextToken\<close>: the tokens passed to
  \<open>getInventoryReport\<close> so far, in call order, and \<open>inventoryMap\<close>.
\<close>

record loop_state =
  calls :: "string list"
  inventory :: "(string, int) Map"

text \<open>
  The loop. \<open>Object.keys(undefined)\<close> and \<open>undefined.token\<close> throw a \<open>TypeError\<close>, which
  leaves the loop for the outer \<open>catch\<close>: the result is then the halt with the state at
  the throw. The loop has no bound: the result is \<open>None\<close> when it never ends.
\<close>

partial_function (option) paginate ::
  "service \<Rightarrow> loop_state \<Rightarrow> string option \<Rightarrow> (halt \<times> loop_state + loop_state) option" where
  "paginate srv st nextToken =
     (case nextToken of
        None \<Rightarrow> Some (Inr st)
      | Some t \<Rightarrow>
          if t = [] then Some (Inr st)
          else (case getInventoryReport srv (calls st) t of
                  Object rep \<Rightarrow>
                    (case hosts rep of
                       None \<Rightarrow>
                         Some (Inl (ProcessingError,
                                    \<lparr>calls = calls st @ [t], inventory = inventory st\<rparr>))
                     | Some hs \<Rightarrow>
                         (case report rep of
                            None \<Rightarrow>
                              Some (Inl (ProcessingError,
                                         \<lparr>calls = calls st @ [t],
                                          inventory = set_hosts hs (inventory st)\<rparr>))
                          | Some r \<Rightarrow>
                              paginate srv
                                \<lparr>calls = calls st @ [t], inventory = set_hosts hs (inventory st)\<rparr>
                                (token r)))
                | _ \<Rightarrow> paginate srv \<lparr>calls = calls st @ [t], inventory = inventory st\<rparr> None))"

section \<open>The pipeline: \<open>main\<close>\<close>

text \<open>Everything \<open>main\<close> reads from outside.\<close>

record world =
  csvFile :: "string option"
  hostsEndpoint :: "Host list reply"
  reportsEndpoint :: "int list \<Rightarrow> string option reply"
  reportPages :: service

text \<open>
  The three files, as the rows written after each header line: \<open>InventoryObtenido.csv\<close>
  (\<open>serviceTag,hostId\<close>), \<open>Inventory.csv\<close> (\<open>id,serviceTag\<close>) and \<open>InventoryNotFound.csv\<close>.
\<close>

record outputs =
  InventoryObtenido_csv :: "(string \<times> int) list"
  Inventory_csv :: "(int \<times> string) list"
  InventoryNotFound_csv :: "string list"

text \<open>
  What a run does to the outside, in the order of the code: \<open>readFileSync\<close>, the GET of the
  hosts, the POST of the report request, each \<open>getInventoryReport(token)\<close>, and each
  \<open>createWriteStream(name)\<close>.
\<close>

datatype effect = ReadCsv | GetHosts | PostReport "int list" | GetReport string | CreateFile string

record run =
  effects :: "effect list"
  outcome :: "halt + outputs"

text \<open>\<open>main\<close> with its effects; \<open>None\<close> when the pagination loop never ends.\<close>

definition main_run :: "world \<Rightarrow> run option" where
  "main_run w =
     (let ss = readFileAndParseToArray (csvFile w);
          hostIds = getHosts (hostsEndpoint w);
          tok = requestInventoryReport (reportsEndpoint w) hostIds;
          before = [ReadCsv, GetHosts, PostReport hostIds]
      in if \<not> truthy tok then Some \<lparr>effects = before, outcome = Inl NoToken\<rparr>
         else (case paginate (reportPages w) \<lparr>calls = [], inventory = Map_new\<rparr> tok of
                 None \<Rightarrow> None
               | Some (Inl (e, thrown)) \<Rightarrow>
                   Some \<lparr>effects = before @ map GetReport (calls thrown), outcome = Inl e\<rparr>
               | Some (Inr fetched) \<Rightarrow>
                   (let st = reconciliation
                        \<lparr>serials = ss, inventoryMap = inventory fetched,
                         inventoryMapFiltered = Map_new, inventoryNotFound = []\<rparr>
                    in Some \<lparr>effects = before @ map GetReport (calls fetched)
                                @ [CreateFile ''InventoryObtenido.csv'', CreateFile ''Inventory.csv'',
                                   CreateFile ''InventoryNotFound.csv''],
                              outcome = Inr \<lparr>InventoryObtenido_csv = inventory fetched,
                                             Inventory_csv = inventoryMapFiltered st,
                                             InventoryNotFound_csv = inventoryNotFound st\<rparr>\<rparr>)))"

text \<open>How \<open>main\<close> ends: halted, or with the three files.\<close>

definition main :: "world \<Rightarrow> (halt + outputs) option" where
  "main w = map_option outcome (main_run w)"

text \<open>The files a finished run has created; both ways of halting come before the first \<open>createWriteStream\<close>.\<close>

definition files_written :: "halt + outputs \<Rightarrow> string list" where
  "files_written r =
     (case r of
        Inl e \<Rightarrow> []
      | Inr out \<Rightarrow> [''InventoryObtenido.csv'', ''Inventory.csv'', ''InventoryNotFound.csv''])"

section \<open>Vocabulary of the properties\<close>

text \<open>The elements of a list in the order of their first appearance, each once.\<close>

definition first_appearances :: "'a list \<Rightarrow> 'a list" where
  "first_appearances xs = rev (remdups (rev xs))"

text \<open>A page object that has both of its properties.\<close>

definition well_formed :: "InventoryResponse \<Rightarrow> bool" where
  "well_formed p = (hosts p \<noteq> None \<and> report p \<noteq> None)"

text \<open>\<open>report.report.token\<close> of a page: the token the page produces, if any.\<close>

definition next_token :: "InventoryResponse \<Rightarrow> string option" where
  "next_token p = (case report p of Some r \<Rightarrow> token r | None \<Rightarrow> None)"

text \<open>The inventory records of a page, in the order the loop body visits them.\<close>

definition rows :: "InventoryResponse \<Rightarrow> host_row list" where
  "rows p = (case hosts p of Some hs \<Rightarrow> map snd hs | None \<Rightarrow> [])"

text \<open>\<open>inventoryMap.set(serviceTag, hostId)\<close> for a sequence of records, in order.\<close>

definition set_rows :: "host_row list \<Rightarrow> (string, int) Map \<Rightarrow> (string, int) Map" where
  "set_rows rs m = foldl (\<lambda>m h. Map_set (serviceTag h) (hostId h) m) m rs"

text \<open>
  A chain of pages: after the requests \<open>cs\<close>, the service answers the token \<open>t\<close> with the
  first page, and the token each page produces with the page after it.
\<close>

fun serves :: "service \<Rightarrow> string list \<Rightarrow> string \<Rightarrow> InventoryResponse list \<Rightarrow> bool" where
  "serves srv cs t [] = True"
| "serves srv cs t (p # ps) =
     (srv cs t = Reply (Object p) \<and>
      (ps = [] \<or> (case next_token p of Some t' \<Rightarrow> serves srv (cs @ [t]) t' ps | None \<Rightarrow> False)))"

text \<open>The tokens that request the pages of a chain, one for each page.\<close>

fun requested :: "string \<Rightarrow> InventoryResponse list \<Rightarrow> string list" where
  "requested t [] = []"
| "requested t (p # ps) = t # (case next_token p of Some t' \<Rightarrow> requested t' ps | None \<Rightarrow> [])"

text \<open>The token left to request after the pages of a chain.\<close>

fun pending :: "string \<Rightarrow> InventoryResponse list \<Rightarrow> string option" where
  "pending t [] = Some t"
| "pending t (p # ps) = (case next_token p of Some t' \<Rightarrow> pending t' ps | None \<Rightarrow> None)"

text \<open>The files that a sequence of effects creates, and the tokens it fetches pages with.\<close>

fun created :: "effect list \<Rightarrow> string list" where
  "created [] = []"
| "created (CreateFile n # es) = n # created es"
| "created (e # es) = created es"

fun fetched_with :: "effect list \<Rightarrow> string list" where
  "fetched_with [] = []"
| "fetched_with (GetReport t # es) = t # fetched_with es"
| "fetched_with (e # es) = fetched_with es"

section \<open>Example inputs\<close>

text \<open>A service that answers by token alone, as \<open>GET /inventory/hardware/reports/{token}\<close> does.\<close>

definition keyed :: "(string \<times> page reply) list \<Rightarrow> service" where
  "keyed table cs tok = (case map_of table tok of Some r \<Rightarrow> r | None \<Rightarrow> Failed)"

definition page1 :: InventoryResponse where
  "page1 = \<lparr>hosts = Some [(''0'', \<lparr>hostId = 42, serviceTag = ''ABC123''\<rparr>),
                          (''1'', \<lparr>hostId = 7, serviceTag = ''DEF456''\<rparr>)],
            report = Some \<lparr>token = Some ''T1''\<rparr>\<rparr>"

definition page2 :: InventoryResponse where
  "page2 = \<lparr>hosts = Some [(''0'', \<lparr>hostId = 43, serviceTag = ''ABC123''\<rparr>)],
            report = Some \<lparr>token = None\<rparr>\<rparr>"

definition page_empty_token :: InventoryResponse where
  "page_empty_token =
     \<lparr>hosts = Some [(''0'', \<lparr>hostId = 42, serviceTag = ''ABC123''\<rparr>)],
      report = Some \<lparr>token = Some []\<rparr>\<rparr>"

definition page_no_hosts :: InventoryResponse where
  "page_no_hosts = \<lparr>hosts = None, report = Some \<lparr>token = None\<rparr>\<rparr>"

definition two_pages :: service where
  "two_pages = keyed [(''T0'', Reply (Object page1)), (''T1'', Reply (Object page2))]"

definition page_then_error :: service where
  "page_then_error = keyed [(''T0'', Reply (Object page1)), (''T1'', Failed)]"

definition page_then_no_hosts :: service where
  "page_then_no_hosts =
     keyed [(''T0'', Reply (Object page1)), (''T1'', Reply (Object page_no_hosts))]"

definition empty_link :: service where
  "empty_link = keyed [(''T0'', Reply (Object page_empty_token)), ([], Reply (Object page2))]"

definition page_blank_tag :: InventoryResponse where
  "page_blank_tag =
     \<lparr>hosts = Some [(''0'', \<lparr>hostId = 9, serviceTag = []\<rparr>)],
      report = Some \<lparr>token = None\<rparr>\<rparr>"

definition blank_tag :: service where
  "blank_tag = keyed [(''T0'', Reply (Object page_blank_tag))]"

definition world_of :: "string \<Rightarrow> string option reply \<Rightarrow> service \<Rightarrow> world" where
  "world_of csv post srv =
     \<lparr>csvFile = Some csv, hostsEndpoint = Reply [\<lparr>description = ''pc'', host_id = 42\<rparr>],
      reportsEndpoint = (\<lambda>hostIds. post), reportPages = srv\<rparr>"

section \<open>The \<open>Map\<close> operations\<close>

lemma map_of_Map_set: "map_of (Map_set k v m) = (map_of m)(k \<mapsto> v)"
  by (induction m) auto

lemma keys_Map_set:
  "map fst (Map_set k v m) = (if k \<in> set (map fst m) then map fst m else map fst m @ [k])"
  by (induction m) auto

lemma set_Map_set: "set (Map_set k v m) \<subseteq> insert (k, v) (set m)"
  by (induction m) auto

lemma first_appearances_snoc:
  "first_appearances (xs @ [x]) =
     (if x \<in> set xs then first_appearances xs else first_appearances xs @ [x])"
  by (simp add: first_appearances_def)

lemma set_first_appearances: "set (first_appearances xs) = set xs"
  by (simp add: first_appearances_def)

lemma distinct_first_appearances: "distinct (first_appearances xs)"
  by (simp add: first_appearances_def)

lemma length_first_appearances: "length (first_appearances xs) \<le> length xs"
  by (simp add: first_appearances_def) (metis length_remdups_leq length_rev)

lemma length_first_appearances_eq: "length (first_appearances xs) = length xs \<longleftrightarrow> distinct xs"
  by (metis distinct_first_appearances distinct_remdups_id distinct_rev first_appearances_def
      length_remdups_eq length_rev rev_rev_ident)

text \<open>A run of \<open>set\<close> calls: the keys stand in the order of their first \<open>set\<close>.\<close>

lemma keys_foldl_set:
  "distinct (map fst m) \<Longrightarrow>
   map fst (foldl (\<lambda>m s. Map_set (f s) s m) m xs) = first_appearances (map fst m @ map f xs)"
proof (induction xs rule: rev_induct)
  case Nil
  then show ?case by (simp add: first_appearances_def distinct_remdups_id)
next
  case (snoc x xs)
  have "first_appearances (map fst m @ map f (xs @ [x])) =
        first_appearances ((map fst m @ map f xs) @ [f x])" by simp
  also have "\<dots> = (if f x \<in> set (map fst m @ map f xs) then first_appearances (map fst m @ map f xs)
                    else first_appearances (map fst m @ map f xs) @ [f x])"
    by (rule first_appearances_snoc)
  finally show ?case using snoc
    by (simp add: keys_Map_set set_first_appearances)
qed

text \<open>A run of \<open>set\<close> calls: each key holds the value of its last \<open>set\<close>.\<close>

lemma map_of_foldl_set:
  "map_of (foldl (\<lambda>m s. Map_set (f s) (g s) m) m xs) = map_of (rev (map (\<lambda>s. (f s, g s)) xs) @ m)"
  by (induction xs rule: rev_induct) (simp_all add: map_of_Map_set)

lemma last_wins:
  "map_of (rev (map (\<lambda>s. (f s, g s)) xs)) d =
     (case filter (\<lambda>s. f s = d) xs of [] \<Rightarrow> None | y # ys \<Rightarrow> Some (g (last (y # ys))))"
  by (induction xs rule: rev_induct) (auto split: list.splits)

lemma set_foldl_set:
  "set (foldl (\<lambda>m s. Map_set (f s) s m) m xs) \<subseteq> set m \<union> (\<lambda>s. (f s, s)) ` set xs"
proof (induction xs rule: rev_induct)
  case Nil
  show ?case by simp
next
  case (snoc x xs)
  show ?case using snoc set_Map_set [of "f x" x "foldl (\<lambda>m s. Map_set (f s) s m) m xs"]
    by auto
qed

lemma Map_set_inj:
  "inj_on f (insert x (set ys)) \<Longrightarrow>
   Map_set (f x) x (map (\<lambda>s. (f s, s)) ys) =
     (if x \<in> set ys then map (\<lambda>s. (f s, s)) ys else map (\<lambda>s. (f s, s)) ys @ [(f x, x)])"
  by (induction ys) (auto simp: inj_on_def)

lemma foldl_set_inj:
  "inj_on f (set xs) \<Longrightarrow>
   foldl (\<lambda>m s. Map_set (f s) s m) [] xs = map (\<lambda>s. (f s, s)) (first_appearances xs)"
proof (induction xs rule: rev_induct)
  case Nil
  show ?case by (simp add: first_appearances_def)
next
  case (snoc x xs)
  from snoc.prems have inj: "inj_on f (set xs)"
    and inj': "inj_on f (insert x (set (first_appearances xs)))"
    by (auto simp: inj_on_def set_first_appearances)
  show ?case
    using snoc.IH [OF inj] Map_set_inj [OF inj']
    by (simp add: first_appearances_snoc set_first_appearances)
qed

section \<open>Reconciliation\<close>

lemma foldl_reconcile_serial:
  "foldl reconcile_serial st xs =
     st\<lparr>inventoryMapFiltered :=
           foldl (\<lambda>m s. Map_set (the (Map_get (inventoryMap st) s)) s m) (inventoryMapFiltered st)
             (filter (Map_has (inventoryMap st)) xs),
        inventoryNotFound := inventoryNotFound st @ filter (\<lambda>s. \<not> Map_has (inventoryMap st) s) xs\<rparr>"
  by (induction xs arbitrary: st) (simp_all add: reconcile_serial_def)

lemma unmatched_eq: "unmatched ss im = filter (\<lambda>s. \<not> Map_has im s) ss"
  by (simp add: unmatched_def reconciliation_def foldl_reconcile_serial)

lemma matched_eq:
  "matched ss im = foldl (\<lambda>m s. Map_set (the (Map_get im s)) s m) Map_new (filter (Map_has im) ss)"
  by (simp add: matched_def reconciliation_def foldl_reconcile_serial)

lemma reconciliation_eq:
  "reconciliation st =
     st\<lparr>inventoryMapFiltered := matched (serials st) (inventoryMap st),
        inventoryNotFound := unmatched (serials st) (inventoryMap st)\<rparr>"
  by (simp add: reconciliation_def matched_eq unmatched_eq foldl_reconcile_serial)

lemma matched_keys:
  "map fst (matched ss im) =
     first_appearances (map (\<lambda>s. the (Map_get im s)) (filter (Map_has im) ss))"
  by (simp add: matched_eq Map_new_def keys_foldl_set)

lemma matched_entries:
  "set (matched ss im) \<subseteq> (\<lambda>s. (the (Map_get im s), s)) ` {s \<in> set ss. Map_has im s}"
  using set_foldl_set [of "\<lambda>s. the (Map_get im s)" "[]" "filter (Map_has im) ss"]
  by (auto simp: matched_eq Map_new_def)

lemma matched_serials: "snd ` set (matched ss im) \<subseteq> {s \<in> set ss. Map_has im s}"
  using set_foldl_set [of "\<lambda>s. the (Map_get im s)" "[]" "filter (Map_has im) ss"]
  by (auto simp: matched_eq Map_new_def)

lemmas reconcile_defs =
  matched_def unmatched_def reconciliation_def reconcile_serial_def
  Map_has_def Map_get_def Map_new_def first_appearances_def

text \<open>
  C1, as stated, fails: \<open>matched\<close> is a \<open>Map\<close> keyed by device id, so a found serial that
  appears twice gives one entry, and the two datasets together are shorter than the input.
\<close>

theorem C1_counterexample:
  "matched [''X'', ''X''] [(''X'', 1)] = [(1, ''X'')]
   \<and> unmatched [''X'', ''X''] [(''X'', 1)] = []
   \<and> length (matched [''X'', ''X''] [(''X'', 1)]) + length (unmatched [''X'', ''X''] [(''X'', 1)])
       \<noteq> length [''X'', ''X'']"
  by (simp add: reconcile_defs)

text \<open>
  C1 (amended). For every input sequence and every inventory map, each input serial is
  processed on its own. Every occurrence of an absent serial is appended to unmatched, in
  input order, duplicates kept. Every occurrence of a found serial is set into matched, a
  \<open>Map\<close> keyed by device id, under the device id of the serial: matched has exactly one
  entry for each device id of the found serials, the entries stand in the order in which
  their ids first appear, and each entry holds the last input serial that resolves to its
  id. So every entry pairs a found input serial with its own device id, a found serial is
  in matched at most once however often it appears in the input (and not at all when a
  later serial with the same device id has replaced it), and no serial is in both datasets.
  The two sizes add up to at most the length of the input, and to exactly that length if
  and only if the found occurrences have pairwise distinct device ids; in that case matched
  lists every found occurrence, with its device id, in input order.
\<close>

theorem C1_partition:
  "unmatched ss im = filter (\<lambda>s. \<not> Map_has im s) ss
   \<and> distinct (map fst (matched ss im))
   \<and> map fst (matched ss im) =
       first_appearances (map (\<lambda>s. the (Map_get im s)) (filter (Map_has im) ss))
   \<and> Map_get (matched ss im) d =
       (case filter (\<lambda>s. the (Map_get im s) = d) (filter (Map_has im) ss) of
          [] \<Rightarrow> None
        | y # ys \<Rightarrow> Some (last (y # ys)))
   \<and> set (matched ss im) \<subseteq> (\<lambda>s. (the (Map_get im s), s)) ` {s \<in> set ss. Map_has im s}
   \<and> distinct (map snd (matched ss im))
   \<and> snd ` set (matched ss im) \<inter> set (unmatched ss im) = {}
   \<and> length (matched ss im) = card ((\<lambda>s. the (Map_get im s)) ` {s \<in> set ss. Map_has im s})
   \<and> length (matched ss im) + length (unmatched ss im) \<le> length ss
   \<and> (length (matched ss im) + length (unmatched ss im) = length ss
        \<longleftrightarrow> distinct (map (\<lambda>s. the (Map_get im s)) (filter (Map_has im) ss)))
   \<and> (distinct (map (\<lambda>s. the (Map_get im s)) (filter (Map_has im) ss))
        \<longrightarrow> matched ss im = map (\<lambda>s. (the (Map_get im s), s)) (filter (Map_has im) ss))"
proof -
  let ?f = "\<lambda>s. the (Map_get im s)"
  let ?found = "filter (Map_has im) ss"
  have u: "unmatched ss im = filter (\<lambda>s. \<not> Map_has im s) ss" by (rule unmatched_eq)
  have keys: "map fst (matched ss im) = first_appearances (map ?f ?found)"
    by (rule matched_keys)
  have dk: "distinct (map fst (matched ss im))"
    unfolding keys by (rule distinct_first_appearances)
  have "Map_get (matched ss im) d = map_of (rev (map (\<lambda>s. (?f s, s)) ?found)) d"
    by (simp add: Map_get_def matched_eq Map_new_def map_of_foldl_set)
  then have vals: "Map_get (matched ss im) d =
       (case filter (\<lambda>s. ?f s = d) ?found of [] \<Rightarrow> None | y # ys \<Rightarrow> Some (last (y # ys)))"
    using last_wins [of ?f "\<lambda>s. s" ?found d] by simp
  have ent: "set (matched ss im) \<subseteq> (\<lambda>s. (?f s, s)) ` {s \<in> set ss. Map_has im s}"
    using matched_entries [of ss im] .
  have "\<And>e. e \<in> set (matched ss im) \<Longrightarrow> fst e = ?f (snd e)"
    using ent by fastforce
  then have "map fst (matched ss im) = map ?f (map snd (matched ss im))"
    by simp
  with dk have ds: "distinct (map snd (matched ss im))"
    by (simp only: distinct_map)
  have sub: "snd ` set (matched ss im) \<subseteq> {s \<in> set ss. Map_has im s}" by (rule matched_serials)
  have disj: "snd ` set (matched ss im) \<inter> set (unmatched ss im) = {}"
    using sub by (auto simp: u)
  have len: "length (matched ss im) = length (first_appearances (map ?f ?found))"
    using keys by (metis length_map)
  have card: "length (matched ss im) = card (?f ` {s \<in> set ss. Map_has im s})"
    unfolding len using distinct_card [OF distinct_first_appearances, of "map ?f ?found"]
    by (simp add: set_first_appearances)
  have split: "length ?found + length (unmatched ss im) = length ss"
    unfolding u by (rule sum_length_filter_compl)
  have le: "length (matched ss im) + length (unmatched ss im) \<le> length ss"
    using length_first_appearances [of "map ?f ?found"] split len by simp
  have eq: "length (matched ss im) + length (unmatched ss im) = length ss
            \<longleftrightarrow> distinct (map ?f ?found)"
    using length_first_appearances_eq [of "map ?f ?found"] split len by auto
  have all: "distinct (map ?f ?found) \<longrightarrow> matched ss im = map (\<lambda>s. (?f s, s)) ?found"
  proof
    assume d: "distinct (map ?f ?found)"
    then have "inj_on ?f (set ?found)" and "distinct ?found" by (simp_all add: distinct_map)
    then show "matched ss im = map (\<lambda>s. (?f s, s)) ?found"
      using foldl_set_inj [of ?f ?found]
      by (simp add: matched_eq Map_new_def first_appearances_def distinct_remdups_id)
  qed
  from u dk keys vals ent ds disj card le eq all show ?thesis by (intro conjI)
qed

theorem C1_partition_witness:
  "distinct (map (\<lambda>s. the (Map_get [(''ABC123'', 42::int)] s))
      (filter (Map_has [(''ABC123'', 42::int)]) [''ABC123'', ''ZZZ999'']))
   \<and> matched [''ABC123'', ''ZZZ999''] [(''ABC123'', 42)] = [(42, ''ABC123'')]
   \<and> unmatched [''ABC123'', ''ZZZ999''] [(''ABC123'', 42)] = [''ZZZ999'']
   \<and> length (matched [''ABC123'', ''ZZZ999''] [(''ABC123'', 42)])
       + length (unmatched [''ABC123'', ''ZZZ999''] [(''ABC123'', 42)]) = 2"
proof -
  let ?ss = "[''ABC123'', ''ZZZ999'']"
  let ?im = "[(''ABC123'', 42::int)]"
  have h: "distinct (map (\<lambda>s. the (Map_get ?im s)) (filter (Map_has ?im) ?ss))"
    by (simp add: Map_has_def Map_get_def)
  note c1 = C1_partition [of ?ss ?im 42]
  from c1 have "unmatched ?ss ?im = filter (\<lambda>s. \<not> Map_has ?im s) ?ss" by (rule conjunct1)
  then have u: "unmatched ?ss ?im = [''ZZZ999'']" by (simp add: Map_has_def Map_get_def)
  from c1 have "distinct (map (\<lambda>s. the (Map_get ?im s)) (filter (Map_has ?im) ?ss))
        \<longrightarrow> matched ?ss ?im = map (\<lambda>s. (the (Map_get ?im s), s)) (filter (Map_has ?im) ?ss)"
    by (elim conjE)
  from this h have "matched ?ss ?im = map (\<lambda>s. (the (Map_get ?im s), s)) (filter (Map_has ?im) ?ss)"
    by (rule mp)
  then have m: "matched ?ss ?im = [(42, ''ABC123'')]" by (simp add: Map_has_def Map_get_def)
  have l: "length (matched ?ss ?im) + length (unmatched ?ss ?im) = 2"
    unfolding m u by simp
  from h m u l show ?thesis by (intro conjI)
qed

text \<open>
  C4, as stated, fails: when two found serials have the same device id, the later serial
  takes the place of the earlier one, ahead of serials that precede it in the input, and
  the earlier serial is not in matched.
\<close>

theorem C4_counterexample:
  "matched [''A'', ''B'', ''C''] [(''A'', 1), (''B'', 2), (''C'', 1)] = [(1, ''C''), (2, ''B'')]
   \<and> map snd (matched [''A'', ''B'', ''C''] [(''A'', 1), (''B'', 2), (''C'', 1)])
       \<noteq> first_appearances
            (filter (Map_has [(''A'', 1), (''B'', 2), (''C'', 1::int)]) [''A'', ''B'', ''C''])"
  by (simp add: reconcile_defs)

text \<open>
  C4 (amended). Reconciliation goes through the input serials in their original order.
  Each absent serial is emitted into unmatched in input order. Each found serial is stored
  in matched under its device id, and the entries of matched stand in the order in which
  their device ids first appear in the input. When distinct found serials have distinct
  device ids, matched holds the found serials in the order of their first appearance in
  the input.
\<close>

theorem C4_order:
  "unmatched ss im = filter (\<lambda>s. \<not> Map_has im s) ss
   \<and> map fst (matched ss im) =
       first_appearances (map (\<lambda>s. the (Map_get im s)) (filter (Map_has im) ss))
   \<and> (inj_on (\<lambda>s. the (Map_get im s)) (set (filter (Map_has im) ss))
        \<longrightarrow> matched ss im =
            map (\<lambda>s. (the (Map_get im s), s)) (first_appearances (filter (Map_has im) ss)))"
proof -
  have "inj_on (\<lambda>s. the (Map_get im s)) (set (filter (Map_has im) ss))
        \<longrightarrow> matched ss im =
            map (\<lambda>s. (the (Map_get im s), s)) (first_appearances (filter (Map_has im) ss))"
    using foldl_set_inj [of "\<lambda>s. the (Map_get im s)" "filter (Map_has im) ss"]
    by (simp add: matched_eq Map_new_def)
  then show ?thesis
    using unmatched_eq [of ss im] matched_keys [of ss im] by blast
qed

theorem C4_order_witness:
  "inj_on (\<lambda>s. the (Map_get [(''A'', 1::int), (''B'', 2)] s))
      (set (filter (Map_has [(''A'', 1::int), (''B'', 2)]) [''B'', ''A'', ''Z'', ''B'']))
   \<and> matched [''B'', ''A'', ''Z'', ''B''] [(''A'', 1), (''B'', 2)] = [(2, ''B''), (1, ''A'')]
   \<and> unmatched [''B'', ''A'', ''Z'', ''B''] [(''A'', 1), (''B'', 2)] = [''Z'']"
proof -
  let ?ss = "[''B'', ''A'', ''Z'', ''B'']"
  let ?im = "[(''A'', 1::int), (''B'', 2)]"
  have h: "inj_on (\<lambda>s. the (Map_get ?im s)) (set (filter (Map_has ?im) ?ss))"
    by (auto simp: Map_has_def Map_get_def inj_on_def split: if_splits)
  have m: "matched ?ss ?im =
           map (\<lambda>s. (the (Map_get ?im s), s)) (first_appearances (filter (Map_has ?im) ?ss))"
    and u: "unmatched ?ss ?im = filter (\<lambda>s. \<not> Map_has ?im s) ?ss"
    using h C4_order [of ?ss ?im] by blast+
  have "matched ?ss ?im = [(2, ''B''), (1, ''A'')]"
    unfolding m by (simp add: Map_has_def Map_get_def first_appearances_def)
  moreover have "unmatched ?ss ?im = [''Z'']"
    unfolding u by (simp add: Map_has_def Map_get_def)
  ultimately show ?thesis using h by blast
qed

text \<open>
  C8. The matched dataset is keyed by device id: it holds at most one entry for each device
  id; the entries stand in the order in which their device ids first appear among the found
  input serials, so a later occurrence that resolves to a device id already present leaves
  the entry where it is; and the serial of an entry is the last input serial that resolves
  to its device id.
\<close>

theorem C8_matched_keyed_by_id:
  "distinct (map fst (matched ss im))
   \<and> map fst (matched ss im) =
       first_appearances (map (\<lambda>s. the (Map_get im s)) (filter (Map_has im) ss))
   \<and> Map_get (matched ss im) d =
       (case filter (\<lambda>s. the (Map_get im s) = d) (filter (Map_has im) ss) of
          [] \<Rightarrow> None
        | y # ys \<Rightarrow> Some (last (y # ys)))"
proof -
  have "Map_get (matched ss im) d =
        map_of (rev (map (\<lambda>s. (the (Map_get im s), s)) (filter (Map_has im) ss))) d"
    by (simp add: Map_get_def matched_eq Map_new_def map_of_foldl_set)
  then show ?thesis
    using matched_keys [of ss im] distinct_first_appearances
      last_wins [of "\<lambda>s. the (Map_get im s)" "\<lambda>s. s" "filter (Map_has im) ss" d]
    by simp
qed

text \<open>
  C10. Reconciliation is idempotent and deterministic: it leaves the input serials and the
  inventory map as they are, its two results depend on these alone, and running it again on
  the state it left yields the same matched and unmatched sequences.
\<close>

theorem C10_reconciliation_idempotent:
  "reconciliation (reconciliation st) = reconciliation st
   \<and> serials (reconciliation st) = serials st
   \<and> inventoryMap (reconciliation st) = inventoryMap st
   \<and> inventoryMapFiltered (reconciliation st) = matched (serials st) (inventoryMap st)
   \<and> inventoryNotFound (reconciliation st) = unmatched (serials st) (inventoryMap st)"
  by (simp add: reconciliation_eq)

section \<open>Pagination\<close>

lemma set_hosts_rows: "hosts p = Some hs \<Longrightarrow> set_hosts hs m = set_rows (rows p) m"
  by (simp add: set_hosts_def set_rows_def rows_def foldl_map case_prod_unfold)

lemma set_rows_append: "set_rows (xs @ ys) m = set_rows ys (set_rows xs m)"
  by (simp add: set_rows_def)

lemma paginate_None: "paginate srv st None = Some (Inr st)"
  by (subst paginate.simps) simp

lemma paginate_empty: "paginate srv st (Some []) = Some (Inr st)"
  by (subst paginate.simps) simp

lemma paginate_page:
  assumes "t \<noteq> []" "srv (calls st) t = Reply (Object p)" "well_formed p"
  shows "paginate srv st (Some t) =
         paginate srv \<lparr>calls = calls st @ [t], inventory = set_rows (rows p) (inventory st)\<rparr> (next_token p)"
  using assms
  by (subst paginate.simps)
     (auto simp: getInventoryReport_def well_formed_def next_token_def set_hosts_rows)

lemma paginate_no_object:
  assumes "t \<noteq> []"
    "getInventoryReport srv (calls st) t = Null \<or> getInventoryReport srv (calls st) t = Primitive"
  shows "paginate srv st (Some t) = Some (Inr \<lparr>calls = calls st @ [t], inventory = inventory st\<rparr>)"
  using assms by (subst paginate.simps) (auto simp: paginate_None)

lemma paginate_malformed:
  assumes "t \<noteq> []" "getInventoryReport srv (calls st) t = Object p" "\<not> well_formed p"
  shows "\<exists>thrown. paginate srv st (Some t) = Some (Inl (ProcessingError, thrown))
                  \<and> calls thrown = calls st @ [t]"
  using assms by (subst paginate.simps) (auto simp: well_formed_def split: option.splits)

lemma paginate_pages:
  assumes "serves srv (calls st) t ps" "t \<noteq> []" "\<forall>p\<in>set ps. well_formed p"
    "\<forall>p\<in>set (butlast ps). truthy (next_token p)"
  shows "paginate srv st (Some t) =
         paginate srv \<lparr>calls = calls st @ requested t ps,
                       inventory = set_rows (concat (map rows ps)) (inventory st)\<rparr> (pending t ps)"
  using assms
proof (induction ps arbitrary: st t)
  case Nil
  show ?case by (cases st) (simp add: set_rows_def)
next
  case (Cons p ps)
  let ?st1 = "\<lparr>calls = calls st @ [t], inventory = set_rows (rows p) (inventory st)\<rparr>"
  from Cons.prems have step: "paginate srv st (Some t) = paginate srv ?st1 (next_token p)"
    by (intro paginate_page) simp_all
  show ?case
  proof (cases "ps = []")
    case True
    then show ?thesis using step by (simp add: set_rows_def split: option.splits)
  next
    case False
    with Cons.prems obtain t' where t': "next_token p = Some t'"
      and srv': "serves srv (calls ?st1) t' ps"
      by (auto split: option.splits)
    from False Cons.prems(4) t' have ne: "t' \<noteq> []" by (simp add: truthy_def)
    from False Cons.prems have rest: "\<forall>p\<in>set ps. well_formed p"
      "\<forall>p\<in>set (butlast ps). truthy (next_token p)" by simp_all
    show ?thesis
      using step Cons.IH [OF srv' ne rest] t' by (simp add: set_rows_append)
  qed
qed


lemma requested_links:
  "ps \<noteq> [] \<Longrightarrow> \<forall>p\<in>set (butlast ps). truthy (next_token p) \<Longrightarrow>
   map Some (requested t ps) = Some t # map next_token (butlast ps)
   \<and> length (requested t ps) = length ps \<and> pending t ps = next_token (last ps)"
proof (induction ps arbitrary: t)
  case Nil
  then show ?case by simp
next
  case (Cons p ps)
  show ?case
  proof (cases "ps = []")
    case True
    then show ?thesis by (simp split: option.splits)
  next
    case False
    with Cons.prems obtain t' where "next_token p = Some t'"
      by (auto simp: truthy_def split: option.splits)
    with False Cons.prems Cons.IH [of t'] show ?thesis by simp
  qed
qed

lemma pending_truthy:
  "t \<noteq> [] \<Longrightarrow> \<forall>p\<in>set ps. truthy (next_token p) \<Longrightarrow> pending t ps = Some t' \<Longrightarrow> t' \<noteq> []"
proof (induction ps arbitrary: t)
  case Nil
  then show ?case by simp
next
  case (Cons p ps)
  then show ?case by (auto simp: truthy_def split: option.splits)
qed

lemma main_fetched:
  assumes "requestInventoryReport (reportsEndpoint w) (getHosts (hostsEndpoint w)) = Some t" "t \<noteq> []"
    "paginate (reportPages w) \<lparr>calls = [], inventory = Map_new\<rparr> (Some t) = Some (Inr r)"
  shows "main w = Some (Inr \<lparr>InventoryObtenido_csv = inventory r,
           Inventory_csv = matched (readFileAndParseToArray (csvFile w)) (inventory r),
           InventoryNotFound_csv = unmatched (readFileAndParseToArray (csvFile w)) (inventory r)\<rparr>)"
  using assms by (simp add: main_def main_run_def truthy_def Let_def matched_def unmatched_def)

lemma main_run_no_token:
  assumes "\<not> truthy (requestInventoryReport (reportsEndpoint w) (getHosts (hostsEndpoint w)))"
  shows "main_run w =
           Some \<lparr>effects = [ReadCsv, GetHosts, PostReport (getHosts (hostsEndpoint w))],
                 outcome = Inl NoToken\<rparr>"
  using assms by (simp add: main_run_def Let_def)

lemma main_no_token:
  assumes "\<not> truthy (requestInventoryReport (reportsEndpoint w) (getHosts (hostsEndpoint w)))"
  shows "main w = Some (Inl NoToken)"
  using assms by (simp add: main_def main_run_no_token)

lemma created_append: "created (es @ fs) = created es @ created fs"
  by (induction es rule: created.induct) simp_all

lemma created_GetReport: "created (map GetReport ts) = []"
  by (induction ts) simp_all

lemma fetched_with_append: "fetched_with (es @ fs) = fetched_with es @ fetched_with fs"
  by (induction es rule: fetched_with.induct) simp_all

lemma fetched_with_GetReport: "fetched_with (map GetReport ts) = ts"
  by (induction ts) simp_all

text \<open>The files of an outcome are the files the run has created.\<close>

lemma files_written_created:
  "main_run w = Some r \<Longrightarrow> files_written (outcome r) = created (effects r)"
  by (auto simp: main_run_def Let_def files_written_def created_append created_GetReport
      split: if_splits option.splits sum.splits prod.splits)

lemma set_rows_last_wins:
  "Map_get (set_rows rs Map_new) tag =
     (case filter (\<lambda>h. serviceTag h = tag) rs of
        [] \<Rightarrow> None
      | y # ys \<Rightarrow> Some (hostId (last (y # ys))))"
  using last_wins [of serviceTag hostId rs tag]
  by (simp add: Map_get_def set_rows_def Map_new_def map_of_foldl_set)

lemmas example_defs =
  keyed_def page1_def page2_def page_empty_token_def page_no_hosts_def page_blank_tag_def blank_tag_def two_pages_def
  page_then_error_def page_then_no_hosts_def empty_link_def world_of_def
  next_token_def well_formed_def rows_def set_rows_def truthy_def
  getInventoryReport_def requestInventoryReport_def getHosts_def

text \<open>
  C3, as stated, fails: the loop tests \<open>nextToken\<close> for truthiness, so a page that produces
  the empty string as its token ends the loop, although the service would answer that token
  with a further page whose token is \<open>null\<close>. Here the chain has two pages and the loop
  makes one fetch call.
\<close>

theorem C3_counterexample:
  "serves empty_link [] ''T0'' [page_empty_token, page2]
   \<and> well_formed page_empty_token \<and> well_formed page2
   \<and> next_token page_empty_token = Some [] \<and> next_token page2 = None
   \<and> paginate empty_link \<lparr>calls = [], inventory = Map_new\<rparr> (Some ''T0'')
       = Some (Inr \<lparr>calls = [''T0''], inventory = [(''ABC123'', 42)]\<rparr>)"
proof -
  have "paginate empty_link \<lparr>calls = [], inventory = Map_new\<rparr> (Some ''T0'')
        = paginate empty_link \<lparr>calls = [''T0''], inventory = [(''ABC123'', 42)]\<rparr> (Some [])"
    by (subst paginate.simps) (simp add: example_defs set_hosts_def Map_new_def)
  then show ?thesis by (simp add: paginate_empty) (simp add: example_defs)
qed

text \<open>
  C3 (amended). For every finite chain of \<open>k\<close> pages in which each of the first \<open>k - 1\<close>
  pages produces a non-empty token, the \<open>k\<close>-th page's token is \<open>null\<close>, and all fetches
  succeed with a page that has its \<open>hosts\<close> and \<open>report\<close>, the pagination loop terminates
  after exactly \<open>k\<close> fetch calls: the first with the token of the report request, each
  later one with the token produced by the page just before it.
\<close>

theorem C3_pagination_calls:
  assumes "serves srv [] t ps" "ps \<noteq> []" "t \<noteq> []" "\<forall>p\<in>set ps. well_formed p"
    "\<forall>p\<in>set (butlast ps). truthy (next_token p)" "next_token (last ps) = None"
  shows "\<exists>r. paginate srv \<lparr>calls = [], inventory = Map_new\<rparr> (Some t) = Some (Inr r)
            \<and> length (calls r) = length ps
            \<and> map Some (calls r) = Some t # map next_token (butlast ps)"
proof -
  let ?r = "\<lparr>calls = requested t ps, inventory = set_rows (concat (map rows ps)) Map_new\<rparr>"
  have links: "map Some (requested t ps) = Some t # map next_token (butlast ps)"
    "length (requested t ps) = length ps" "pending t ps = next_token (last ps)"
    using requested_links [OF assms(2,5), of t] by simp_all
  have "paginate srv \<lparr>calls = [], inventory = Map_new\<rparr> (Some t) = paginate srv ?r (pending t ps)"
    using paginate_pages [of srv "\<lparr>calls = [], inventory = Map_new\<rparr>" t ps] assms by simp
  also have "\<dots> = Some (Inr ?r)"
    using links(3) assms(6) by (simp add: paginate_None)
  finally show ?thesis using links by simp
qed

theorem C3_pagination_calls_witness:
  "serves two_pages [] ''T0'' [page1, page2] \<and> [page1, page2] \<noteq> [] \<and> ''T0'' \<noteq> []
   \<and> well_formed page1 \<and> well_formed page2
   \<and> truthy (next_token page1)
   \<and> next_token (last [page1, page2]) = None
   \<and> (\<exists>r. paginate two_pages \<lparr>calls = [], inventory = Map_new\<rparr> (Some ''T0'') = Some (Inr r)
          \<and> calls r = [''T0'', ''T1''])"
proof -
  have h: "serves two_pages [] ''T0'' [page1, page2]" "[page1, page2] \<noteq> []" "''T0'' \<noteq> []"
    "\<forall>p\<in>set [page1, page2]. well_formed p"
    "\<forall>p\<in>set (butlast [page1, page2]). truthy (next_token p)"
    "next_token (last [page1, page2]) = None"
    by (simp_all add: example_defs)
  from C3_pagination_calls [OF h] obtain r where
    r: "paginate two_pages \<lparr>calls = [], inventory = Map_new\<rparr> (Some ''T0'') = Some (Inr r)"
    "map Some (calls r) = Some ''T0'' # map next_token (butlast [page1, page2])"
    by (elim exE conjE)
  from r(2) have "map Some (calls r) = map Some [''T0'', ''T1'']" by (simp add: example_defs)
  then have c: "calls r = [''T0'', ''T1'']" by (simp only: inj_map_eq_map [OF inj_Some])
  have w: "well_formed page1" "well_formed page2" "truthy (next_token page1)"
    by (simp_all add: example_defs)
  from r(1) c h(1,2,3,6) w show ?thesis by blast
qed

text \<open>
  C6. The inventory map built from the report pages is last-write-wins on duplicate
  serials: when pagination runs through a chain of pages to its end (a page with no token
  to go on with), the final map binds a serial to the device id of the last record, over
  all pages in order, that carries this serial, and binds no serial that no record carries.
\<close>

theorem C6_last_write_wins:
  assumes "serves srv [] t ps" "ps \<noteq> []" "t \<noteq> []" "\<forall>p\<in>set ps. well_formed p"
    "\<forall>p\<in>set (butlast ps). truthy (next_token p)" "\<not> truthy (next_token (last ps))"
  shows "\<exists>r. paginate srv \<lparr>calls = [], inventory = Map_new\<rparr> (Some t) = Some (Inr r)
            \<and> (\<forall>tag. Map_get (inventory r) tag =
                  (case filter (\<lambda>h. serviceTag h = tag) (concat (map rows ps)) of
                     [] \<Rightarrow> None
                   | y # ys \<Rightarrow> Some (hostId (last (y # ys)))))"
proof -
  let ?r = "\<lparr>calls = requested t ps, inventory = set_rows (concat (map rows ps)) Map_new\<rparr>"
  have "pending t ps = None \<or> pending t ps = Some []"
    using requested_links [OF assms(2,5), of t] assms(6)
    by (auto simp: truthy_def split: option.splits)
  moreover have "paginate srv \<lparr>calls = [], inventory = Map_new\<rparr> (Some t) = paginate srv ?r (pending t ps)"
    using paginate_pages [of srv "\<lparr>calls = [], inventory = Map_new\<rparr>" t ps] assms by simp
  ultimately have "paginate srv \<lparr>calls = [], inventory = Map_new\<rparr> (Some t) = Some (Inr ?r)"
    by (auto simp: paginate_None paginate_empty)
  then show ?thesis by (simp add: set_rows_last_wins)
qed

theorem C6_last_write_wins_witness:
  "serves two_pages [] ''T0'' [page1, page2] \<and> [page1, page2] \<noteq> [] \<and> ''T0'' \<noteq> []
   \<and> well_formed page1 \<and> well_formed page2
   \<and> truthy (next_token page1)
   \<and> \<not> truthy (next_token (last [page1, page2]))
   \<and> (\<exists>r. paginate two_pages \<lparr>calls = [], inventory = Map_new\<rparr> (Some ''T0'') = Some (Inr r)
          \<and> Map_get (inventory r) ''ABC123'' = Some 43
          \<and> Map_get (inventory r) ''DEF456'' = Some 7
          \<and> Map_get (inventory r) ''ZZZ999'' = None)"
proof -
  have h: "serves two_pages [] ''T0'' [page1, page2]" "[page1, page2] \<noteq> []" "''T0'' \<noteq> []"
    "\<forall>p\<in>set [page1, page2]. well_formed p"
    "\<forall>p\<in>set (butlast [page1, page2]). truthy (next_token p)"
    "\<not> truthy (next_token (last [page1, page2]))"
    by (simp_all add: example_defs)
  from C6_last_write_wins [OF h] obtain r where
    r: "paginate two_pages \<lparr>calls = [], inventory = Map_new\<rparr> (Some ''T0'') = Some (Inr r)"
    "\<And>tag. Map_get (inventory r) tag =
       (case filter (\<lambda>h. serviceTag h = tag) (concat (map rows [page1, page2])) of
          [] \<Rightarrow> None | y # ys \<Rightarrow> Some (hostId (last (y # ys))))"
    by blast
  have g: "Map_get (inventory r) ''ABC123'' = Some 43" "Map_get (inventory r) ''DEF456'' = Some 7"
    "Map_get (inventory r) ''ZZZ999'' = None"
    unfolding r(2) by (simp_all add: example_defs)
  have w: "well_formed page1" "well_formed page2" "truthy (next_token page1)"
    by (simp_all add: example_defs)
  from r(1) g h(1,2,3,6) w show ?thesis by blast
qed

text \<open>
  C2, as stated, fails for a page whose records are absent: \<open>Object.keys(report.hosts)\<close>
  throws, the outer \<open>catch\<close> ends the run, and no file is written, the records of the
  earlier pages included.
\<close>

theorem C2_counterexample:
  "getInventoryReport page_then_no_hosts [''T0''] ''T1'' = Object page_no_hosts
   \<and> hosts page_no_hosts = None
   \<and> paginate page_then_no_hosts \<lparr>calls = [], inventory = Map_new\<rparr> (Some ''T0'')
       = Some (Inl (ProcessingError,
                    \<lparr>calls = [''T0'', ''T1''], inventory = [(''ABC123'', 42), (''DEF456'', 7)]\<rparr>))
   \<and> main (world_of ''ABC123'' (Reply (Some ''T0'')) page_then_no_hosts) = Some (Inl ProcessingError)
   \<and> map_option files_written (main (world_of ''ABC123'' (Reply (Some ''T0'')) page_then_no_hosts)) = Some []"
proof -
  have 1: "paginate page_then_no_hosts \<lparr>calls = [], inventory = Map_new\<rparr> (Some ''T0'')
        = paginate page_then_no_hosts
            \<lparr>calls = [''T0''], inventory = [(''ABC123'', 42), (''DEF456'', 7)]\<rparr> (Some ''T1'')"
    by (subst paginate.simps) (simp add: example_defs set_hosts_def Map_new_def)
  have 2: "paginate page_then_no_hosts
            \<lparr>calls = [''T0''], inventory = [(''ABC123'', 42), (''DEF456'', 7)]\<rparr> (Some ''T1'')
           = Some (Inl (ProcessingError,
                    \<lparr>calls = [''T0'', ''T1''], inventory = [(''ABC123'', 42), (''DEF456'', 7)]\<rparr>))"
    by (subst paginate.simps) (simp add: example_defs)
  have p: "paginate page_then_no_hosts \<lparr>calls = [], inventory = Map_new\<rparr> (Some ''T0'')
       = Some (Inl (ProcessingError,
                    \<lparr>calls = [''T0'', ''T1''], inventory = [(''ABC123'', 42), (''DEF456'', 7)]\<rparr>))"
    using 1 2 by simp
  have m: "main (world_of ''ABC123'' (Reply (Some ''T0'')) page_then_no_hosts) = Some (Inl ProcessingError)"
    using p
    by (simp add: main_def main_run_def Let_def world_of_def requestInventoryReport_def truthy_def)
  show ?thesis using p m by (simp add: files_written_def) (simp add: example_defs)
qed

text \<open>
  C2 (amended). For every pagination run, if a fetched page is \<open>null\<close> (the request
  failed) or is not an object, pagination terminates early, after that fetch call, and the
  pipeline proceeds with the inventory records accumulated from the earlier pages: it
  reconciles against them and writes the three files.
\<close>

theorem C2_failed_page_degrades:
  assumes "requestInventoryReport (reportsEndpoint w) (getHosts (hostsEndpoint w)) = Some t" "t \<noteq> []"
    "serves (reportPages w) [] t ps" "\<forall>p\<in>set ps. well_formed p \<and> truthy (next_token p)"
    "pending t ps = Some t'"
    "getInventoryReport (reportPages w) (requested t ps) t' = Null
     \<or> getInventoryReport (reportPages w) (requested t ps) t' = Primitive"
  shows "paginate (reportPages w) \<lparr>calls = [], inventory = Map_new\<rparr> (Some t) =
           Some (Inr \<lparr>calls = requested t ps @ [t'],
                      inventory = set_rows (concat (map rows ps)) Map_new\<rparr>)
         \<and> main w = Some (Inr
             \<lparr>InventoryObtenido_csv = set_rows (concat (map rows ps)) Map_new,
              Inventory_csv = matched (readFileAndParseToArray (csvFile w))
                                (set_rows (concat (map rows ps)) Map_new),
              InventoryNotFound_csv = unmatched (readFileAndParseToArray (csvFile w))
                                (set_rows (concat (map rows ps)) Map_new)\<rparr>)"
proof -
  let ?srv = "reportPages w"
  let ?r = "\<lparr>calls = requested t ps, inventory = set_rows (concat (map rows ps)) Map_new\<rparr>"
  have ne: "t' \<noteq> []" using pending_truthy [of t ps t'] assms by simp
  have bl: "\<forall>p\<in>set (butlast ps). truthy (next_token p)"
    using assms(4) by (meson in_set_butlastD)
  have "paginate ?srv \<lparr>calls = [], inventory = Map_new\<rparr> (Some t) = paginate ?srv ?r (Some t')"
    using paginate_pages [of ?srv "\<lparr>calls = [], inventory = Map_new\<rparr>" t ps] assms bl by simp
  also have "\<dots> = Some (Inr \<lparr>calls = requested t ps @ [t'],
                      inventory = set_rows (concat (map rows ps)) Map_new\<rparr>)"
    using paginate_no_object [of t' ?srv ?r] ne assms(6) by simp
  finally have p: "paginate (reportPages w) \<lparr>calls = [], inventory = Map_new\<rparr> (Some t) =
           Some (Inr \<lparr>calls = requested t ps @ [t'],
                      inventory = set_rows (concat (map rows ps)) Map_new\<rparr>)" .
  show ?thesis using p main_fetched [OF assms(1,2) p] by simp
qed

theorem C2_failed_page_degrades_witness:
  "requestInventoryReport (reportsEndpoint (world_of ''ABC123'' (Reply (Some ''T0'')) page_then_error))
      (getHosts (hostsEndpoint (world_of ''ABC123'' (Reply (Some ''T0'')) page_then_error))) = Some ''T0''
   \<and> ''T0'' \<noteq> []
   \<and> serves (reportPages (world_of ''ABC123'' (Reply (Some ''T0'')) page_then_error)) [] ''T0'' [page1]
   \<and> well_formed page1 \<and> truthy (next_token page1)
   \<and> pending ''T0'' [page1] = Some ''T1''
   \<and> getInventoryReport (reportPages (world_of ''ABC123'' (Reply (Some ''T0'')) page_then_error))
        (requested ''T0'' [page1]) ''T1'' = Null
   \<and> main (world_of ''ABC123'' (Reply (Some ''T0'')) page_then_error) =
       Some (Inr \<lparr>InventoryObtenido_csv = [(''ABC123'', 42), (''DEF456'', 7)],
                  Inventory_csv = [(42, ''ABC123'')],
                  InventoryNotFound_csv = []\<rparr>)"
proof -
  let ?w = "world_of ''ABC123'' (Reply (Some ''T0'')) page_then_error"
  have h: "requestInventoryReport (reportsEndpoint ?w) (getHosts (hostsEndpoint ?w)) = Some ''T0''"
    "''T0'' \<noteq> []"
    "serves (reportPages ?w) [] ''T0'' [page1]"
    "\<forall>p\<in>set [page1]. well_formed p \<and> truthy (next_token p)"
    "pending ''T0'' [page1] = Some ''T1''"
    by (simp_all add: example_defs)
  have n: "getInventoryReport (reportPages ?w) (requested ''T0'' [page1]) ''T1'' = Null"
    by (simp add: example_defs)
  have inv: "set_rows (concat (map rows [page1])) Map_new = [(''ABC123'', 42), (''DEF456'', 7)]"
    by (simp add: example_defs Map_new_def)
  have ss: "readFileAndParseToArray (csvFile ?w) = [''ABC123'']"
    by (simp add: world_of_def readFileAndParseToArray_def trim_def isWhiteSpace_def)
  have "main ?w = Some (Inr
             \<lparr>InventoryObtenido_csv = set_rows (concat (map rows [page1])) Map_new,
              Inventory_csv = matched (readFileAndParseToArray (csvFile ?w))
                                (set_rows (concat (map rows [page1])) Map_new),
              InventoryNotFound_csv = unmatched (readFileAndParseToArray (csvFile ?w))
                                (set_rows (concat (map rows [page1])) Map_new)\<rparr>)"
    using C2_failed_page_degrades [OF h disjI1 [OF n]] by blast
  then have "main ?w = Some (Inr \<lparr>InventoryObtenido_csv = [(''ABC123'', 42), (''DEF456'', 7)],
                  Inventory_csv = [(42, ''ABC123'')],
                  InventoryNotFound_csv = []\<rparr>)"
    unfolding inv ss by (simp add: reconcile_defs)
  moreover have "well_formed page1" "truthy (next_token page1)"
    by (simp_all add: example_defs)
  ultimately show ?thesis using h(1,2,3,5) n by blast
qed



section \<open>Input Loader\<close>

lemma split_nl_nonempty: "split_nl data \<noteq> []"
  by (induction data) (auto split: list.splits)

lemma length_split_nl: "length (split_nl data) = Suc (length (filter (\<lambda>c. c = CHR 0x0A) data))"
  using split_nl_nonempty by (induction data) (auto split: list.splits)

lemma split_nl_no_lf: "l \<in> set (split_nl data) \<Longrightarrow> CHR 0x0A \<notin> set l"
  by (induction data arbitrary: l) (auto split: list.splits if_splits)

lemma split_nl_join: "concat (map (\<lambda>l. CHR 0x0A # l) (split_nl data)) = CHR 0x0A # data"
  by (induction data) (auto split: list.splits)

lemma trim_Nil: "trim [] = []"
  by (simp add: trim_def)

lemma trim_ends:
  "trim s = [] \<or> (\<not> isWhiteSpace (hd (trim s)) \<and> \<not> isWhiteSpace (last (trim s)))"
proof (cases "trim s = []")
  case True
  then show ?thesis by simp
next
  case False
  let ?u = "dropWhile isWhiteSpace s"
  let ?v = "dropWhile isWhiteSpace (rev ?u)"
  from False have v: "?v \<noteq> []" by (simp add: trim_def)
  have u: "?u \<noteq> []"
  proof
    assume "?u = []"
    then have "?v = []" by (simp only: rev.simps dropWhile.simps)
    with v show False by simp
  qed
  have "\<not> isWhiteSpace (hd ?v)" using v by (rule hd_dropWhile)
  then have l: "\<not> isWhiteSpace (last (trim s))" using v by (simp add: trim_def last_rev)
  have "rev ?u = takeWhile isWhiteSpace (rev ?u) @ ?v" by simp
  then have "last (rev ?u) = last ?v" using v by (metis last_appendR)
  then have "last ?v = hd ?u" using u by (simp add: last_rev)
  moreover have "\<not> isWhiteSpace (hd ?u)" using u by (rule hd_dropWhile)
  ultimately have "\<not> isWhiteSpace (hd (trim s))" using v by (simp add: trim_def hd_rev)
  with l show ?thesis by simp
qed

lemma trim_blank:
  assumes "\<forall>c\<in>set s. isWhiteSpace c"
  shows "trim s = []"
proof -
  have "dropWhile isWhiteSpace s = []" using assms by (simp only: dropWhile_eq_Nil_conv)
  then show ?thesis by (simp only: trim_def rev.simps dropWhile.simps)
qed

lemma trim_sublist: "\<exists>a b. s = a @ trim s @ b \<and> (\<forall>c\<in>set a. isWhiteSpace c) \<and> (\<forall>c\<in>set b. isWhiteSpace c)"
proof -
  let ?u = "dropWhile isWhiteSpace s"
  let ?v = "dropWhile isWhiteSpace (rev ?u)"
  have 1: "s = takeWhile isWhiteSpace s @ ?u" by simp
  have "rev ?u = takeWhile isWhiteSpace (rev ?u) @ ?v" by simp
  then have "?u = rev ?v @ rev (takeWhile isWhiteSpace (rev ?u))"
    by (metis rev_append rev_rev_ident)
  then have 2: "?u = trim s @ rev (takeWhile isWhiteSpace (rev ?u))" by (simp add: trim_def)
  have "s = takeWhile isWhiteSpace s @ trim s @ rev (takeWhile isWhiteSpace (rev ?u))"
    using 1 2 by metis
  moreover have "\<forall>c\<in>set (takeWhile isWhiteSpace s). isWhiteSpace c"
    by (meson set_takeWhileD)
  moreover have "\<forall>c\<in>set (rev (takeWhile isWhiteSpace (rev ?u))). isWhiteSpace c"
    by (metis set_rev set_takeWhileD)
  ultimately show ?thesis by blast
qed

text \<open>
  C7, as stated, fails: nothing in the reconciliation pass treats the empty string apart, so
  when the remote inventory reports a device with an empty service tag, the empty entry that
  a trailing line feed leaves in the input is matched to that device.
\<close>

theorem C7_counterexample:
  "readFileAndParseToArray (csvFile (world_of (''A'' @ [CHR 0x0A]) (Reply (Some ''T0'')) blank_tag))
     = [''A'', []]
   \<and> main (world_of (''A'' @ [CHR 0x0A]) (Reply (Some ''T0'')) blank_tag) =
       Some (Inr \<lparr>InventoryObtenido_csv = [([], 9)],
                  Inventory_csv = [(9, [])],
                  InventoryNotFound_csv = [''A'']\<rparr>)"
proof -
  let ?w = "world_of (''A'' @ [CHR 0x0A]) (Reply (Some ''T0'')) blank_tag"
  have ss: "readFileAndParseToArray (csvFile ?w) = [''A'', []]"
    by (simp add: world_of_def readFileAndParseToArray_def trim_def isWhiteSpace_def)
  have 1: "paginate blank_tag \<lparr>calls = [], inventory = Map_new\<rparr> (Some ''T0'')
        = paginate blank_tag \<lparr>calls = [''T0''], inventory = [([], 9)]\<rparr> None"
    by (subst paginate.simps) (simp add: example_defs set_hosts_def Map_new_def)
  have p: "paginate (reportPages ?w) \<lparr>calls = [], inventory = Map_new\<rparr> (Some ''T0'')
        = Some (Inr \<lparr>calls = [''T0''], inventory = [([], 9)]\<rparr>)"
    using 1 by (simp add: paginate_None world_of_def)
  have t: "requestInventoryReport (reportsEndpoint ?w) (getHosts (hostsEndpoint ?w)) = Some ''T0''"
    by (simp add: world_of_def requestInventoryReport_def)
  have "main ?w = Some (Inr \<lparr>InventoryObtenido_csv = [([], 9)],
           Inventory_csv = matched [''A'', []] [([], 9)],
           InventoryNotFound_csv = unmatched [''A'', []] [([], 9)]\<rparr>)"
    using main_fetched [OF t _ p] ss by simp
  then have "main ?w = Some (Inr \<lparr>InventoryObtenido_csv = [([], 9)],
                  Inventory_csv = [(9, [])],
                  InventoryNotFound_csv = [''A'']\<rparr>)"
    by (simp add: reconcile_defs)
  with ss show ?thesis by (intro conjI)
qed

text \<open>
  C7 (amended). At load time the file is cut at line feeds and each line is trimmed of
  surrounding white space: every line gives one entry, the line without the white space at
  its two ends, so that an entry is empty or starts and ends with a character that is not
  white space. Empty lines are preserved as empty-string entries. When the inventory map
  has no record with an empty service tag, every empty-string entry lands in unmatched and
  none in matched.
\<close>

theorem C7_input_loader:
  "readFileAndParseToArray (Some data) = map trim (split_nl data)
   \<and> length (readFileAndParseToArray (Some data)) = Suc (length (filter (\<lambda>c. c = CHR 0x0A) data))
   \<and> (\<forall>s\<in>set (readFileAndParseToArray file).
         s = [] \<or> (\<not> isWhiteSpace (hd s) \<and> \<not> isWhiteSpace (last s)))
   \<and> (\<exists>a b. l = a @ trim l @ b \<and> (\<forall>c\<in>set a. isWhiteSpace c) \<and> (\<forall>c\<in>set b. isWhiteSpace c))
   \<and> trim [] = []
   \<and> (\<not> Map_has im [] \<longrightarrow>
        [] \<notin> snd ` set (matched ss im)
        \<and> filter (\<lambda>s. s = []) (unmatched ss im) = filter (\<lambda>s. s = []) ss)"
proof -
  have 1: "readFileAndParseToArray (Some data) = map trim (split_nl data)"
    by (simp add: readFileAndParseToArray_def)
  have 2: "length (readFileAndParseToArray (Some data))
           = Suc (length (filter (\<lambda>c. c = CHR 0x0A) data))"
    by (simp add: readFileAndParseToArray_def length_split_nl)
  have 3: "\<forall>s\<in>set (readFileAndParseToArray file).
         s = [] \<or> (\<not> isWhiteSpace (hd s) \<and> \<not> isWhiteSpace (last s))"
    using trim_ends by (auto simp: readFileAndParseToArray_def split: option.splits)
  have 4: "\<not> Map_has im [] \<longrightarrow>
        [] \<notin> snd ` set (matched ss im)
        \<and> filter (\<lambda>s. s = []) (unmatched ss im) = filter (\<lambda>s. s = []) ss"
  proof
    assume h: "\<not> Map_has im []"
    have "[] \<notin> snd ` set (matched ss im)" using matched_serials [of ss im] h by auto
    moreover have "filter (\<lambda>s. s = []) (unmatched ss im) = filter (\<lambda>s. s = []) ss"
      using h by (auto simp: unmatched_eq intro: filter_cong)
    ultimately show "[] \<notin> snd ` set (matched ss im)
        \<and> filter (\<lambda>s. s = []) (unmatched ss im) = filter (\<lambda>s. s = []) ss" by simp
  qed
  from 1 2 3 4 trim_sublist [of l] trim_Nil show ?thesis by blast
qed

theorem C7_input_loader_witness:
  "\<not> Map_has [(''A1'', 5::int)] []
   \<and> readFileAndParseToArray (Some (''A1 '' @ [CHR 0x0A, CHR 0x0A] @ '' B2'' @ [CHR 0x0D, CHR 0x0A]))
       = [''A1'', [], ''B2'', []]
   \<and> \<not> isWhiteSpace (hd ''B2'') \<and> \<not> isWhiteSpace (last ''B2'')
   \<and> [] \<notin> snd ` set (matched [''A1'', [], ''B2'', []] [(''A1'', 5)])
   \<and> filter (\<lambda>s. s = []) (unmatched [''A1'', [], ''B2'', []] [(''A1'', 5)]) = [[], []]"
proof -
  let ?data = "''A1 '' @ [CHR 0x0A, CHR 0x0A] @ '' B2'' @ [CHR 0x0D, CHR 0x0A]"
  let ?ss = "[''A1'', [], ''B2'', []]"
  let ?im = "[(''A1'', 5::int)]"
  have h: "\<not> Map_has ?im []" by (simp add: Map_has_def Map_get_def)
  have e: "map trim (split_nl ?data) = ?ss" by (simp add: trim_def isWhiteSpace_def)
  note c7 = C7_input_loader [of ?data "Some ?data" "[]" ?im ?ss]
  from c7 have r: "readFileAndParseToArray (Some ?data) = map trim (split_nl ?data)"
    by (rule conjunct1)
  from c7 have t: "\<forall>s\<in>set (readFileAndParseToArray (Some ?data)).
         s = [] \<or> (\<not> isWhiteSpace (hd s) \<and> \<not> isWhiteSpace (last s))"
    by (elim conjE)
  from c7 have "\<not> Map_has ?im [] \<longrightarrow>
        [] \<notin> snd ` set (matched ?ss ?im)
        \<and> filter (\<lambda>s. s = []) (unmatched ?ss ?im) = filter (\<lambda>s. s = []) ?ss"
    by (elim conjE)
  from this h have mu: "[] \<notin> snd ` set (matched ?ss ?im)
        \<and> filter (\<lambda>s. s = []) (unmatched ?ss ?im) = filter (\<lambda>s. s = []) ?ss"
    by (rule mp)
  have f: "filter (\<lambda>s. s = []) ?ss = [[], []]" by simp
  from mu have m: "[] \<notin> snd ` set (matched ?ss ?im)" by (rule conjunct1)
  from mu have u: "filter (\<lambda>s. s = []) (unmatched ?ss ?im) = [[], []]"
    unfolding f by (rule conjunct2)
  from t have "''B2'' = [] \<or> (\<not> isWhiteSpace (hd ''B2'') \<and> \<not> isWhiteSpace (last ''B2''))"
    unfolding r e by simp
  then have b: "\<not> isWhiteSpace (hd ''B2'')" "\<not> isWhiteSpace (last ''B2'')" by simp_all
  from h r [unfolded e] b m u show ?thesis by (intro conjI)
qed

section \<open>The pipeline without a token\<close>

text \<open>
  C5, as stated, fails: when the report request fails, \<open>main\<close> returns before the first
  \<open>createWriteStream\<close>, so no inventory file is produced, not even an empty one.
\<close>

theorem C5_counterexample:
  "requestInventoryReport (reportsEndpoint (world_of ''ABC123'' Failed two_pages))
      (getHosts (hostsEndpoint (world_of ''ABC123'' Failed two_pages))) = None
   \<and> map_option files_written (main (world_of ''ABC123'' Failed two_pages)) = Some []
   \<and> map_option (\<lambda>r. created (effects r)) (main_run (world_of ''ABC123'' Failed two_pages))
       = Some []"
  by (simp add: main_def main_run_def Let_def world_of_def requestInventoryReport_def truthy_def
      files_written_def)

text \<open>
  C5 (amended). Whenever the Report Requester returns \<open>null\<close> (no report token), the
  pipeline halts right after the report request, before any file write: the run reads the
  input file, gets the hosts, posts the report request and does nothing more, so no page is
  fetched and no file is created, and none of the three output files, the inventory file
  included, is produced.
\<close>

theorem C5_no_token_no_files:
  assumes "requestInventoryReport (reportsEndpoint w) (getHosts (hostsEndpoint w)) = None"
  shows "main_run w =
           Some \<lparr>effects = [ReadCsv, GetHosts, PostReport (getHosts (hostsEndpoint w))],
                 outcome = Inl NoToken\<rparr>
         \<and> map_option (\<lambda>r. fetched_with (effects r)) (main_run w) = Some []
         \<and> map_option (\<lambda>r. created (effects r)) (main_run w) = Some []
         \<and> main w = Some (Inl NoToken)
         \<and> map_option files_written (main w) = Some []"
proof -
  have nt: "\<not> truthy (requestInventoryReport (reportsEndpoint w) (getHosts (hostsEndpoint w)))"
    using assms by (simp add: truthy_def)
  have r: "main_run w =
           Some \<lparr>effects = [ReadCsv, GetHosts, PostReport (getHosts (hostsEndpoint w))],
                 outcome = Inl NoToken\<rparr>"
    using nt by (rule main_run_no_token)
  have m: "main w = Some (Inl NoToken)" using nt by (rule main_no_token)
  show ?thesis using r m by (simp add: files_written_def)
qed

theorem C5_no_token_no_files_witness:
  "requestInventoryReport (reportsEndpoint (world_of ''ABC123'' (Reply None) two_pages))
      (getHosts (hostsEndpoint (world_of ''ABC123'' (Reply None) two_pages))) = None
   \<and> main_run (world_of ''ABC123'' (Reply None) two_pages) =
       Some \<lparr>effects = [ReadCsv, GetHosts, PostReport [42]], outcome = Inl NoToken\<rparr>
   \<and> main (world_of ''ABC123'' (Reply None) two_pages) = Some (Inl NoToken)
   \<and> map_option files_written (main (world_of ''ABC123'' (Reply None) two_pages)) = Some []"
proof -
  let ?w = "world_of ''ABC123'' (Reply None) two_pages"
  have h: "requestInventoryReport (reportsEndpoint ?w) (getHosts (hostsEndpoint ?w)) = None"
    by (simp add: world_of_def requestInventoryReport_def)
  have g: "getHosts (hostsEndpoint ?w) = [42]" by (simp add: world_of_def getHosts_def)
  note c5 = C5_no_token_no_files [OF h]
  from c5 have r: "main_run ?w =
       Some \<lparr>effects = [ReadCsv, GetHosts, PostReport [42]], outcome = Inl NoToken\<rparr>"
    unfolding g by (rule conjunct1)
  from c5 have m: "main ?w = Some (Inl NoToken)" by (elim conjE)
  from c5 have f: "map_option files_written (main ?w) = Some []" by (elim conjE)
  from h r m f show ?thesis by (intro conjI)
qed

end
